theory Spec2Isabelle
  imports Main
begin

section \<open>The notebook cell text model\<close>

text \<open>
  A shallow embedding of \<^verbatim>\<open>notebookCellTextModel.ts\<close>: the class
  \<^verbatim>\<open>NotebookCellTextModel\<close> and the free functions \<^verbatim>\<open>cloneMetadata\<close> and
  \<^verbatim>\<open>cloneNotebookCellTextModel\<close>. Methods take the object's state and return the new
  one next to their result. Private fields \<^verbatim>\<open>_x\<close> are record fields \<open>p_x\<close>, as an
  Isabelle name cannot begin with an underscore. \<^verbatim>\<open>resolveTextModelRef\<close>, which hands
  the cell's location to the model service and returns what it answers, is left out
  together with the service.
\<close>

subsection \<open>JavaScript values\<close>

text \<open>
  The values that metadata, output payloads and the argument of \<^verbatim>\<open>hash\<close> range over.
  An object is its list of own enumerable properties in insertion order, which is the
  order of \<^verbatim>\<open>Object.keys\<close>. \<open>VFun\<close> is a reference to a function, named by the
  function it refers to. Numbers are integers here.
\<close>

datatype jsval =
    VUndefined
  | VNull
  | VBool bool
  | VNum int
  | VStr string
  | VArr "jsval list"
  | VObj "(string \<times> jsval) list"
  | VFun string

type_synonym jsobj = "(string \<times> jsval) list"

text \<open>Property read \<^verbatim>\<open>obj?.key\<close>: a missing property reads as \<^verbatim>\<open>undefined\<close>.\<close>

definition getProp :: "jsobj \<Rightarrow> string \<Rightarrow> jsval" where
  "getProp obj key = (case map_of obj key of None \<Rightarrow> VUndefined | Some v \<Rightarrow> v)"

text \<open>
  Property write \<^verbatim>\<open>obj[key] = v\<close>: an existing property keeps its place, a new one goes
  last.
\<close>

fun setProp :: "string \<Rightarrow> jsval \<Rightarrow> jsobj \<Rightarrow> jsobj" where
  "setProp key v [] = [(key, v)]"
| "setProp key v ((k, w) # ps) = (if k = key then (k, v) # ps else (k, w) # setProp key v ps)"

text \<open>The test of \<^verbatim>\<open>a ?? b\<close>: \<^verbatim>\<open>b\<close> is taken when \<^verbatim>\<open>a\<close> is \<^verbatim>\<open>null\<close> or \<^verbatim>\<open>undefined\<close>.\<close>

definition nullish :: "jsval \<Rightarrow> bool" where
  "nullish v = (v = VUndefined \<or> v = VNull)"

definition coalesce :: "jsval \<Rightarrow> jsval \<Rightarrow> jsval" where
  "coalesce a b = (if nullish a then b else a)"

text \<open>
  \<^verbatim>\<open>Array.prototype.splice(start, deleteCount, ...items)\<close> on the array \<open>xs\<close>: a
  negative start counts from the end, a start past the end is the end, and the delete
  count is clamped to what is there. The removed elements it returns are not used by
  the model's caller and are left out.
\<close>

definition Array_splice :: "'a list \<Rightarrow> int \<Rightarrow> int \<Rightarrow> 'a list \<Rightarrow> 'a list" where
  "Array_splice xs start deleteCount items =
     (let len = int (length xs);
          actualStart = (if start < 0 then max (len + start) 0 else min start len);
          actualDeleteCount = min (max deleteCount 0) (len - actualStart)
      in take (nat actualStart) xs @ items @ drop (nat (actualStart + actualDeleteCount)) xs)"

subsection \<open>Outputs, splices and events\<close>

text \<open>
  Modelled from the spec: the declarations of \<^verbatim>\<open>notebookCommon\<close> (\<^verbatim>\<open>IOutputDto\<close>,
  \<^verbatim>\<open>NotebookCellOutputsSplice\<close>, \<^verbatim>\<open>CellKind\<close>, \<^verbatim>\<open>TransientOptions\<close>,
  \<^verbatim>\<open>NotebookDocumentMetadata\<close>) and the class \<^verbatim>\<open>NotebookCellOutputTextModel\<close> are
  not in the file at hand. An output record (3) is its identifier and its ordered list
  of mime-typed representation entries. The constructor wraps each one in a
  \<^verbatim>\<open>NotebookCellOutputTextModel\<close>, whose \<^verbatim>\<open>outputs\<close> and \<^verbatim>\<open>outputId\<close> read the
  wrapped record; the model uses the record for both.
\<close>

type_synonym outputItem = "string \<times> jsval"

record IOutputDto =
  outputs :: "outputItem list"
  outputId :: string

text \<open>
  \<^verbatim>\<open>NotebookCellOutputsSplice\<close> (4.4): a start index, a delete count and the records
  to insert, read by the method as \<^verbatim>\<open>splice[0]\<close>, \<^verbatim>\<open>splice[1]\<close>, \<^verbatim>\<open>splice[2]\<close>.
\<close>

type_synonym NotebookCellOutputsSplice = "int \<times> int \<times> IOutputDto list"

text \<open>
  The caller's arrays of splices live in a store, since
  \<^verbatim>\<open>spliceNotebookCellOutputs\<close> changes the array it is given: an array is an
  address, and the store gives its elements.
\<close>

type_synonym arrayRef = nat
type_synonym arrayStore = "arrayRef \<Rightarrow> NotebookCellOutputsSplice list"

text \<open>
  One constructor for each of the four emitters. An outputs event carries the reference
  it was fired with and the elements a listener reads from it during the (synchronous)
  delivery.
\<close>

datatype event =
    DidChangeOutputs arrayRef "NotebookCellOutputsSplice list"
  | DidChangeContent
  | DidChangeMetadata
  | DidChangeLanguage string

subsection \<open>The text buffer\<close>

text \<open>
  Modelled from the spec: the piece-tree text buffer and its builder
  (\<^verbatim>\<open>PieceTreeTextBuffer\<close>, \<^verbatim>\<open>PieceTreeTextBufferBuilder\<close>) are not in the file at hand.
  A buffer is its lines and its end-of-line sequence, with an identity, a disposed flag
  and the number of listeners the cell has put on its content-change event. Its queries
  are those the cell calls (4.2): the end of line, the line count, the length of a line,
  the total character length, and the text of a range with a given end of line.
\<close>

record textBuffer =
  bufferId :: nat
  bufLines :: "string list"
  bufEOL :: string
  bufDisposed :: bool
  contentListeners :: nat

datatype EndOfLinePreference = TextDefined | LF | CRLF

record Range =
  startLineNumber :: nat
  startColumn :: nat
  endLineNumber :: nat
  endColumn :: nat

definition eolLF :: string where
  "eolLF = [CHR 0x0A]"

definition eolCRLF :: string where
  "eolCRLF = [CHR 0x0D, CHR 0x0A]"

definition getEOL :: "textBuffer \<Rightarrow> string" where
  "getEOL b = bufEOL b"

definition getLineCount :: "textBuffer \<Rightarrow> nat" where
  "getLineCount b = length (bufLines b)"

definition getLineContent :: "textBuffer \<Rightarrow> nat \<Rightarrow> string" where
  "getLineContent b lineNumber =
     (case drop (lineNumber - 1) (bufLines b) of [] \<Rightarrow> [] | l # _ \<Rightarrow> l)"

definition getLineLength :: "textBuffer \<Rightarrow> nat \<Rightarrow> nat" where
  "getLineLength b lineNumber = length (getLineContent b lineNumber)"

fun joinLines :: "string \<Rightarrow> string list \<Rightarrow> string" where
  "joinLines sep [] = []"
| "joinLines sep [l] = l"
| "joinLines sep (l # ls) = l @ sep @ joinLines sep ls"

definition getLength :: "textBuffer \<Rightarrow> nat" where
  "getLength b = length (joinLines (bufEOL b) (bufLines b))"

definition getValueInRange :: "textBuffer \<Rightarrow> Range \<Rightarrow> EndOfLinePreference \<Rightarrow> string" where
  "getValueInRange b r pref =
     (let sep = (case pref of TextDefined \<Rightarrow> bufEOL b | LF \<Rightarrow> eolLF | CRLF \<Rightarrow> eolCRLF)
      in if startLineNumber r = endLineNumber r
         then take (endColumn r - startColumn r)
                (drop (startColumn r - 1) (getLineContent b (startLineNumber r)))
         else joinLines sep
                (drop (startColumn r - 1) (getLineContent b (startLineNumber r))
                 # take (endLineNumber r - startLineNumber r - 1)
                     (drop (startLineNumber r) (bufLines b))
                 @ [take (endColumn r - 1) (getLineContent b (endLineNumber r))]))"

text \<open>
  Modelled from the spec: building a buffer from a raw string (4.1: "using a single
  normalized end-of-line convention at construction time"). The text is cut at every
  line break; the buffer's end of line is CRLF when more than half of the breaks have a
  carriage return, and the default (LF, as the getter asks) otherwise.
\<close>

fun splitLines :: "string \<Rightarrow> string list" where
  "splitLines [] = [[]]"
| "splitLines (c # cs) =
     (if c = CHR 0x0A then [] # splitLines cs
      else if c = CHR 0x0D then
        (case cs of
           [] \<Rightarrow> [[], []]
         | d # ds \<Rightarrow> if d = CHR 0x0A then [] # splitLines ds else [] # splitLines cs)
      else (case splitLines cs of [] \<Rightarrow> [[c]] | l # ls \<Rightarrow> (c # l) # ls))"

fun countCR :: "string \<Rightarrow> nat" where
  "countCR [] = 0"
| "countCR (c # cs) =
     (if c = CHR 0x0D then
        (case cs of
           [] \<Rightarrow> 1
         | d # ds \<Rightarrow> if d = CHR 0x0A then Suc (countCR ds) else Suc (countCR cs))
      else countCR cs)"

definition createTextBuffer :: "nat \<Rightarrow> string \<Rightarrow> textBuffer" where
  "createTextBuffer ident source =
     (let ls = splitLines source;
          totalEOLCount = length ls - 1;
          totalCRCount = countCR source
      in \<lparr> bufferId = ident,
           bufLines = ls,
           bufEOL = (if totalEOLCount = 0 then eolLF
                     else if 2 * totalCRCount > totalEOLCount then eolCRLF else eolLF),
           bufDisposed = False,
           contentListeners = 0 \<rparr>)"

text \<open>
  Modelled from the spec: \<^verbatim>\<open>new PieceTreeTextBuffer([], '', '\n', false, false, true, true)\<close>,
  the buffer of no chunks: one empty line, end of line LF.
\<close>

definition emptyTextBuffer :: "nat \<Rightarrow> textBuffer" where
  "emptyTextBuffer ident =
     \<lparr> bufferId = ident, bufLines = [[]], bufEOL = eolLF, bufDisposed = False,
       contentListeners = 0 \<rparr>"

subsection \<open>The cell\<close>

text \<open>
  Modelled from the spec: the cell kind ("code" or "markup"), the transient options (3:
  the metadata keys to keep out of the hash and whether to keep the outputs out) and the
  document defaults that \<^verbatim>\<open>getEvaluatedMetadata\<close> reads (4.6), declared in
  \<^verbatim>\<open>notebookCommon\<close>. \<^verbatim>\<open>NotebookCellMetadata\<close> is an object of optional flags and
  values (3: "a flat mapping of named flags/values") and is a \<open>jsobj\<close>.
\<close>

datatype CellKind = Markdown | Code

record TransientOptions =
  transientOutputs :: bool
  transientMetadata :: "(string \<times> bool) list"

record NotebookDocumentMetadata =
  cellEditable :: bool
  cellHasExecutionOrder :: bool

text \<open>What \<^verbatim>\<open>_register\<close> has put in the store of the \<^verbatim>\<open>Disposable\<close> base class.\<close>

datatype disposable = BufferDisposable nat | ContentListener nat

text \<open>
  The fields of the class, then the state the class shares with its surroundings:
  \<open>fired\<close> is the log of the \<^verbatim>\<open>fire\<close> calls on the four emitters, oldest first;
  \<open>registered\<close> and \<open>isDisposed\<close> are the store of the base class; \<open>allocated\<close>
  counts the buffer objects created so far and names the next one.
\<close>

record NotebookCellTextModel =
  uri :: string
  handle :: int
  p_source :: string
  p_language :: string
  cellKind :: CellKind
  p_outputs :: "IOutputDto list"
  p_metadata :: jsobj
  transientOptions :: TransientOptions
  p_textBuffer :: "textBuffer option"
  p_hash :: "int option"
  fired :: "event list"
  registered :: "disposable list"
  isDisposed :: bool
  allocated :: nat

text \<open>The constructor; \<^verbatim>\<open>metadata || {}\<close> is the empty object for a missing argument.\<close>

definition construct ::
  "string \<Rightarrow> int \<Rightarrow> string \<Rightarrow> string \<Rightarrow> CellKind \<Rightarrow> IOutputDto list \<Rightarrow> jsobj option
     \<Rightarrow> TransientOptions \<Rightarrow> NotebookCellTextModel" where
  "construct u h src lang kind outs md topts =
     \<lparr> uri = u, handle = h, p_source = src, p_language = lang, cellKind = kind,
       p_outputs = outs,
       p_metadata = (case md of None \<Rightarrow> [] | Some m \<Rightarrow> m),
       transientOptions = topts,
       p_textBuffer = None, p_hash = None,
       fired = [], registered = [], isDisposed = False, allocated = 0 \<rparr>"

definition set_metadata :: "jsobj \<Rightarrow> NotebookCellTextModel \<Rightarrow> NotebookCellTextModel" where
  "set_metadata newMetadata c =
     c\<lparr> p_metadata := newMetadata, p_hash := None, fired := fired c @ [DidChangeMetadata] \<rparr>"

definition set_language :: "string \<Rightarrow> NotebookCellTextModel \<Rightarrow> NotebookCellTextModel" where
  "set_language newLanguage c =
     c\<lparr> p_language := newLanguage, p_hash := None,
        fired := fired c @ [DidChangeLanguage newLanguage] \<rparr>"

text \<open>
  The getter \<^verbatim>\<open>textBuffer\<close>: the buffer is returned when the field holds one; otherwise
  it is built from \<^verbatim>\<open>_source\<close>, its disposable and one content listener are registered,
  and it is stored.
\<close>

definition textBuffer :: "NotebookCellTextModel \<Rightarrow> textBuffer \<times> NotebookCellTextModel" where
  "textBuffer c =
     (case p_textBuffer c of
        Some b \<Rightarrow> (b, c)
      | None \<Rightarrow>
          (let b0 = createTextBuffer (allocated c) (p_source c);
               b = b0\<lparr> contentListeners := contentListeners b0 + 1 \<rparr>
           in (b, c\<lparr> p_textBuffer := Some b,
                     registered := registered c
                        @ [BufferDisposable (bufferId b), ContentListener (bufferId b)],
                     allocated := allocated c + 1 \<rparr>)))"

text \<open>
  The listener the getter installs: \<^verbatim>\<open>this._hash = null; this._onDidChangeContent.fire()\<close>.
\<close>

definition contentListener :: "NotebookCellTextModel \<Rightarrow> NotebookCellTextModel" where
  "contentListener c = c\<lparr> p_hash := None, fired := fired c @ [DidChangeContent] \<rparr>"

text \<open>
  Modelled from the spec: a content edit through the buffer (the buffer's editing
  interface is not in the file at hand). The editor reads the buffer from the cell,
  replaces its text, and the buffer's content-change event runs each listener on it.
\<close>

definition editContent :: "string \<Rightarrow> NotebookCellTextModel \<Rightarrow> NotebookCellTextModel" where
  "editContent newText c =
     (let (b, c1) = textBuffer c;
          c2 = c1\<lparr> p_textBuffer := Some (b\<lparr> bufLines := splitLines newText \<rparr>) \<rparr>
      in (contentListener ^^ contentListeners b) c2)"

definition getFullModelRange :: "NotebookCellTextModel \<Rightarrow> Range \<times> NotebookCellTextModel" where
  "getFullModelRange c =
     (let (b, c1) = textBuffer c;
          lineCount = getLineCount b
      in (\<lparr> startLineNumber = 1, startColumn = 1, endLineNumber = lineCount,
            endColumn = getLineLength b lineCount + 1 \<rparr>, c1))"

definition getValue :: "NotebookCellTextModel \<Rightarrow> string \<times> NotebookCellTextModel" where
  "getValue c =
     (let (fullRange, c1) = getFullModelRange c;
          (b, c2) = textBuffer c1;
          eol = getEOL b
      in if eol = eolLF
         then (let (b', c3) = textBuffer c2 in (getValueInRange b' fullRange LF, c3))
         else (let (b', c3) = textBuffer c2 in (getValueInRange b' fullRange CRLF, c3)))"

definition getTextLength :: "NotebookCellTextModel \<Rightarrow> nat \<times> NotebookCellTextModel" where
  "getTextLength c = (let (b, c1) = textBuffer c in (getLength b, c1))"

text \<open>
  \<^verbatim>\<open>_getPersisentMetadata\<close>: the metadata without the keys that the transient options
  mark with a truthy value.
\<close>

definition getPersisentMetadata :: "NotebookCellTextModel \<Rightarrow> jsobj" where
  "getPersisentMetadata c =
     filter (\<lambda>(key, v). \<not> (map_of (transientMetadata (transientOptions c)) key = Some True))
       (p_metadata c)"

text \<open>
  Modelled from the spec: how an element of \<^verbatim>\<open>_outputs\<close>, an object of the class
  \<^verbatim>\<open>NotebookCellOutputTextModel\<close> that is not in the file at hand, appears to
  \<^verbatim>\<open>hash\<close>: an object holding the wrapped record.
\<close>

definition outputValue :: "IOutputDto \<Rightarrow> jsval" where
  "outputValue out =
     VObj [(''_rawOutput'',
            VObj [(''outputs'', VArr (map (\<lambda>(mime, v). VObj [(''mime'', VStr mime), (''value'', v)])
                                       (outputs out))),
                  (''outputId'', VStr (outputId out))])]"

text \<open>
  \<^verbatim>\<open>getHashValue\<close>. The function \<^verbatim>\<open>hash\<close> of \<^verbatim>\<open>vs/base/common/hash\<close> is not in the
  file at hand and is the parameter \<open>hash\<close>. The array handed to it is built left to
  right: the hash of the language, the hash of the value (which binds the buffer), the
  property \<^verbatim>\<open>this._getPersisentMetadata\<close> as the source writes it, without a call, and
  the outputs or the empty array.
\<close>

definition hashInput :: "(jsval \<Rightarrow> int) \<Rightarrow> NotebookCellTextModel \<Rightarrow> jsval \<times> NotebookCellTextModel" where
  "hashInput hash c =
     (let h1 = hash (VStr (p_language c));
          (v, c1) = getValue c;
          h2 = hash (VStr v)
      in (VArr [VNum h1, VNum h2, VFun ''_getPersisentMetadata'',
                if transientOutputs (transientOptions c1) then VArr []
                else VArr (map outputValue (p_outputs c1))], c1))"

definition getHashValue :: "(jsval \<Rightarrow> int) \<Rightarrow> NotebookCellTextModel \<Rightarrow> int \<times> NotebookCellTextModel" where
  "getHashValue hash c =
     (case p_hash c of
        Some v \<Rightarrow> (v, c)
      | None \<Rightarrow>
          (let (arr, c1) = hashInput hash c;
               v = hash arr
           in (v, c1\<lparr> p_hash := Some v \<rparr>)))"

text \<open>
  \<^verbatim>\<open>spliceNotebookCellOutputs\<close>. \<^verbatim>\<open>splices.reverse()\<close> reverses the array in the store
  and returns the same array; \<^verbatim>\<open>forEach\<close> walks it from the first element; the event is
  fired with the parameter \<^verbatim>\<open>splices\<close>.
\<close>

fun spliceNotebookCellOutputs ::
  "arrayRef \<Rightarrow> arrayStore \<times> NotebookCellTextModel \<Rightarrow> arrayStore \<times> NotebookCellTextModel" where
  "spliceNotebookCellOutputs splices (st, c) =
     (let st1 = st(splices := rev (st splices));
          outs = foldl (\<lambda>os (start, deleteCount, items). Array_splice os start deleteCount items)
                   (p_outputs c) (st1 splices);
          c1 = c\<lparr> p_outputs := outs \<rparr>
      in (st1, c1\<lparr> fired := fired c1 @ [DidChangeOutputs splices (st1 splices)] \<rparr>))"

text \<open>
  \<^verbatim>\<open>getEvaluatedMetadata\<close>: the copy of the metadata with the two flags set. The cell
  comes back next to the result, as the method has the cell at hand.
\<close>

definition getEvaluatedMetadata ::
  "NotebookDocumentMetadata \<Rightarrow> NotebookCellTextModel \<Rightarrow> jsobj \<times> NotebookCellTextModel" where
  "getEvaluatedMetadata documentMetadata c =
     (let editable = coalesce (getProp (p_metadata c) ''editable'')
                       (VBool (cellEditable documentMetadata));
          hasExecutionOrder = coalesce (getProp (p_metadata c) ''hasExecutionOrder'')
                                (VBool (cellHasExecutionOrder documentMetadata))
      in (setProp ''hasExecutionOrder'' hasExecutionOrder
            (setProp ''editable'' editable (p_metadata c)), c))"

text \<open>
  Modelled from the spec: \<^verbatim>\<open>super.dispose()\<close> of the base class \<^verbatim>\<open>Disposable\<close>, which
  is not in the file at hand. It releases what was registered, once (4.7, 5: "calling
  dispose twice must not fault"). A fault of the call would be the \<open>Inl\<close> branch.
\<close>

datatype error = DisposeFault

definition super_dispose :: "NotebookCellTextModel \<Rightarrow> error + NotebookCellTextModel" where
  "super_dispose c =
     (if isDisposed c then Inr c else Inr (c\<lparr> registered := [], isDisposed := True \<rparr>))"

text \<open>
  \<^verbatim>\<open>dispose\<close>: a new empty buffer is made and disposed, the field is set to it, and the
  base class disposes the rest.
\<close>

definition dispose :: "NotebookCellTextModel \<Rightarrow> error + NotebookCellTextModel" where
  "dispose c =
     (let emptyDisposedTextBuffer = (emptyTextBuffer (allocated c))\<lparr> bufDisposed := True \<rparr>
      in super_dispose (c\<lparr> p_textBuffer := Some emptyDisposedTextBuffer,
                           allocated := allocated c + 1 \<rparr>))"

subsection \<open>Cloning\<close>





subsection \<open>Sequences of calls\<close>

text \<open>
  The calls a host makes on a cell and on the arrays it passes, and the state they lead
  to from a given one. \<open>EditContent\<close> is an edit of the bound buffer by its editor.
\<close>

datatype action =
    SetLanguage string
  | SetMetadata jsobj
  | EditContent string
  | GetTextBuffer
  | GetValue
  | GetTextLength
  | GetFullModelRange
  | GetHashValue
  | GetEvaluatedMetadata NotebookDocumentMetadata
  | SpliceOutputs arrayRef
  | Dispose

fun step :: "(jsval \<Rightarrow> int) \<Rightarrow> action \<Rightarrow> arrayStore \<times> NotebookCellTextModel
               \<Rightarrow> arrayStore \<times> NotebookCellTextModel" where
  "step hash (SetLanguage l) (st, c) = (st, set_language l c)"
| "step hash (SetMetadata m) (st, c) = (st, set_metadata m c)"
| "step hash (EditContent t) (st, c) = (st, editContent t c)"
| "step hash GetTextBuffer (st, c) = (st, snd (textBuffer c))"
| "step hash GetValue (st, c) = (st, snd (getValue c))"
| "step hash GetTextLength (st, c) = (st, snd (getTextLength c))"
| "step hash GetFullModelRange (st, c) = (st, snd (getFullModelRange c))"
| "step hash GetHashValue (st, c) = (st, snd (getHashValue hash c))"
| "step hash (GetEvaluatedMetadata d) (st, c) = (st, snd (getEvaluatedMetadata d c))"
| "step hash (SpliceOutputs r) (st, c) = spliceNotebookCellOutputs r (st, c)"
| "step hash Dispose (st, c) = (st, case dispose c of Inl e \<Rightarrow> c | Inr c' \<Rightarrow> c')"

definition run :: "(jsval \<Rightarrow> int) \<Rightarrow> action list \<Rightarrow> arrayStore \<times> NotebookCellTextModel
               \<Rightarrow> arrayStore \<times> NotebookCellTextModel" where
  "run hash as w = foldl (\<lambda>w a. step hash a w) w as"

text \<open>The calls of a live cell: every one but \<^verbatim>\<open>dispose\<close>.\<close>

fun isLive :: "action \<Rightarrow> bool" where
  "isLive Dispose = False"
| "isLive a = True"

text \<open>
  The calls that keep a filled cache right in the state \<open>c\<close>: the live ones, where an
  output splice comes only when the outputs are transient or the cache is empty. A
  sequence of calls is safe from a state when each call is such a one in the state it
  is made in.
\<close>

fun keepsCache :: "NotebookCellTextModel \<Rightarrow> action \<Rightarrow> bool" where
  "keepsCache c (SpliceOutputs r) = (transientOutputs (transientOptions c) \<or> p_hash c = None)"
| "keepsCache c Dispose = False"
| "keepsCache c a = True"

fun cacheSafe ::
  "(jsval \<Rightarrow> int) \<Rightarrow> action list \<Rightarrow> arrayStore \<times> NotebookCellTextModel \<Rightarrow> bool" where
  "cacheSafe hash [] w = True"
| "cacheSafe hash (a # as) w = (keepsCache (snd w) a \<and> cacheSafe hash as (step hash a w))"

subsection \<open>Properties to be checked\<close>

text \<open>
  The full text of a buffer, as \<^verbatim>\<open>getValue\<close> reads it: the range from the first
  column of the first line to the end of the last line, with the buffer's end of line.
\<close>

definition fullValue :: "textBuffer \<Rightarrow> string" where
  "fullValue b =
     getValueInRange b
       \<lparr> startLineNumber = 1, startColumn = 1, endLineNumber = getLineCount b,
         endColumn = getLineLength b (getLineCount b) + 1 \<rparr>
       (if getEOL b = eolLF then LF else CRLF)"

text \<open>
  The state of a live cell as far as the buffer goes: either no buffer was built and
  nothing is registered, or one buffer was built, the first, it carries one content
  listener of the cell, and its disposable and that listener are what is registered.
\<close>

definition boundOnce :: "NotebookCellTextModel \<Rightarrow> bool" where
  "boundOnce c =
     (case p_textBuffer c of
        None \<Rightarrow> allocated c = 0 \<and> registered c = []
      | Some b \<Rightarrow>
          allocated c = 1 \<and> bufferId b = 0 \<and> contentListeners b = 1 \<and> \<not> bufDisposed b
          \<and> registered c = [BufferDisposable 0, ContentListener 0])"

text \<open>
  The cache is right when it is empty or holds the hash that \<^verbatim>\<open>getHashValue\<close> would
  compute now.
\<close>

definition cacheValid :: "(jsval \<Rightarrow> int) \<Rightarrow> NotebookCellTextModel \<Rightarrow> bool" where
  "cacheValid hash c =
     (case p_hash c of None \<Rightarrow> True | Some v \<Rightarrow> v = hash (fst (hashInput hash c)))"

text \<open>
  The input of the hash in the words of the spec (4.5): the language, the text, the
  metadata without its transient keys, and the outputs or an empty value. The cache
  invariant of the spec (3) compares the cache with the hash of this.
\<close>

definition specHashInput :: "(jsval \<Rightarrow> int) \<Rightarrow> NotebookCellTextModel \<Rightarrow> jsval" where
  "specHashInput hash c =
     VArr [VNum (hash (VStr (p_language c))), VNum (hash (VStr (fst (getValue c)))),
           VObj (getPersisentMetadata c),
           if transientOutputs (transientOptions c) then VArr []
           else VArr (map outputValue (p_outputs c))]"

definition specCacheValid :: "(jsval \<Rightarrow> int) \<Rightarrow> NotebookCellTextModel \<Rightarrow> bool" where
  "specCacheValid hash c =
     (case p_hash c of None \<Rightarrow> True | Some v \<Rightarrow> v = hash (specHashInput hash c))"

text \<open>
  The list after a batch of splices in the words of the spec (4.4, 8): every start index
  is a position of the list before the batch. Walking those positions, the outputs
  that a splice inserts at a position come first, in the order of the batch, and the
  element of the list at the position follows unless a splice deletes it.
\<close>

definition insertedAt :: "NotebookCellOutputsSplice list \<Rightarrow> nat \<Rightarrow> IOutputDto list" where
  "insertedAt splices i =
     concat (map (\<lambda>(start, deleteCount, items). if start = int i then items else []) splices)"

definition isDeleted :: "NotebookCellOutputsSplice list \<Rightarrow> nat \<Rightarrow> bool" where
  "isDeleted splices i =
     list_ex (\<lambda>(start, deleteCount, items). start \<le> int i \<and> int i < start + deleteCount) splices"

definition segment ::
  "NotebookCellOutputsSplice list \<Rightarrow> IOutputDto list \<Rightarrow> nat \<Rightarrow> nat \<Rightarrow> IOutputDto list" where
  "segment splices xs a b =
     concat (map (\<lambda>i. insertedAt splices i @ (if isDeleted splices i then [] else [xs ! i]))
               [a..<b])"

definition specAgainstOriginal ::
  "IOutputDto list \<Rightarrow> NotebookCellOutputsSplice list \<Rightarrow> IOutputDto list" where
  "specAgainstOriginal xs splices =
     segment splices xs 0 (length xs) @ insertedAt splices (length xs)"

definition tailFrom ::
  "NotebookCellOutputsSplice list \<Rightarrow> IOutputDto list \<Rightarrow> nat \<Rightarrow> IOutputDto list" where
  "tailFrom splices xs a = segment splices xs a (length xs) @ insertedAt splices (length xs)"

text \<open>
  A batch in ascending order for a list of \<open>n\<close> elements, from position \<open>pos\<close> on: each
  splice starts where the one before it ends or later, deletes a run that is in the
  list, and has no negative count.
\<close>

fun ascendingFrom :: "nat \<Rightarrow> nat \<Rightarrow> NotebookCellOutputsSplice list \<Rightarrow> bool" where
  "ascendingFrom pos n [] = True"
| "ascendingFrom pos n ((start, deleteCount, items) # rest) =
     (int pos \<le> start \<and> 0 \<le> deleteCount \<and> start + deleteCount \<le> int n
      \<and> ascendingFrom (nat (start + deleteCount)) n rest)"

text \<open>The loop of \<^verbatim>\<open>spliceNotebookCellOutputs\<close> on its own.\<close>

definition applyReversed ::
  "IOutputDto list \<Rightarrow> NotebookCellOutputsSplice list \<Rightarrow> IOutputDto list" where
  "applyReversed xs splices =
     foldl (\<lambda>os (start, deleteCount, items). Array_splice os start deleteCount items) xs
       (rev splices)"


subsection \<open>Examples\<close>

text \<open>
  Modelled from the spec: \<^verbatim>\<open>hash\<close> of \<^verbatim>\<open>vs/base/common/hash\<close> is not in the file at
  hand; 4.5 calls the composite hash "a fold of per-component hashes into one integer
  value". \<open>exampleHash\<close> is such a fold over 32-bit integers, by the type of the value.
  It serves to evaluate examples; the general theorems hold for every function.
\<close>

definition toInt32 :: "int \<Rightarrow> int" where
  "toInt32 x = (x + 2147483648) mod 4294967296 - 2147483648"

definition numberHash :: "int \<Rightarrow> int \<Rightarrow> int" where
  "numberHash val initialHashVal = toInt32 (initialHashVal * 31 + val)"

definition stringHash :: "string \<Rightarrow> int \<Rightarrow> int" where
  "stringHash s hashVal =
     foldl (\<lambda>h ch. numberHash (of_char ch) h) (numberHash 149417 hashVal) s"

fun doHash :: "jsval \<Rightarrow> int \<Rightarrow> int"
  and arrayHash :: "jsval list \<Rightarrow> int \<Rightarrow> int"
  and objectHash :: "(string \<times> jsval) list \<Rightarrow> int \<Rightarrow> int" where
  "doHash VUndefined hashVal = numberHash 937 hashVal"
| "doHash VNull hashVal = numberHash 349 hashVal"
| "doHash (VBool b) hashVal = numberHash (if b then 433 else 863) hashVal"
| "doHash (VNum n) hashVal = numberHash n hashVal"
| "doHash (VStr s) hashVal = stringHash s hashVal"
| "doHash (VArr xs) hashVal = arrayHash xs (numberHash 104579 hashVal)"
| "doHash (VObj ps) hashVal = objectHash ps (numberHash 181387 hashVal)"
| "doHash (VFun f) hashVal = numberHash 617 hashVal"
| "arrayHash [] hashVal = hashVal"
| "arrayHash (x # xs) hashVal = arrayHash xs (doHash x hashVal)"
| "objectHash [] hashVal = hashVal"
| "objectHash ((k, v) # ps) hashVal = objectHash ps (doHash v (stringHash k hashVal))"

definition exampleHash :: "jsval \<Rightarrow> int" where
  "exampleHash obj = doHash obj 0"

definition exampleOutput :: "string \<Rightarrow> IOutputDto" where
  "exampleOutput name = \<lparr> outputs = [(''text/plain'', VStr name)], outputId = name \<rparr>"

definition exampleOptions :: TransientOptions where
  "exampleOptions = \<lparr> transientOutputs = False, transientMetadata = [(''runState'', True)] \<rparr>"

definition exampleCell :: NotebookCellTextModel where
  "exampleCell =
     construct ''cell0'' 0 ''a'' ''py'' Code
       [exampleOutput ''x0'', exampleOutput ''x1'', exampleOutput ''x2'']
       None exampleOptions"

definition emptyStore :: arrayStore where
  "emptyStore = (\<lambda>r. [])"

text \<open>The batch of the spec's example (8), and a batch in descending order.\<close>

definition exampleSplices :: "NotebookCellOutputsSplice list" where
  "exampleSplices = [(0, 1, [exampleOutput ''A'']), (2, 0, [exampleOutput ''B''])]"

definition descendingSplices :: "NotebookCellOutputsSplice list" where
  "descendingSplices = [(2, 0, [exampleOutput ''B'']), (0, 0, [exampleOutput ''A''])]"

text \<open>
  Document defaults, sequences of calls, a cell with other output identifiers, a
  generator of identifiers of its own, and one that yields the identifiers it is given.
\<close>

definition exampleDocument :: NotebookDocumentMetadata where
  "exampleDocument = \<lparr> cellEditable = False, cellHasExecutionOrder = True \<rparr>"

definition exampleCalls :: "action list" where
  "exampleCalls = [GetHashValue, SetLanguage ''js'', EditContent ''b'', GetHashValue]"

definition staleCalls :: "action list" where
  "staleCalls = [GetHashValue, SpliceOutputs 0]"

definition disposedCalls :: "action list" where
  "disposedCalls = [GetHashValue, Dispose]"

definition splicedCalls :: "action list" where
  "splicedCalls = [SpliceOutputs 0, GetHashValue, SetLanguage ''js'', EditContent ''b'',
                   SpliceOutputs 0, GetHashValue]"




section \<open>Verification\<close>

subsection \<open>Splices read against the list before the batch\<close>

lemma applyReversed_Nil: "applyReversed xs [] = xs"
  by (simp add: applyReversed_def)

lemma applyReversed_Cons:
  "applyReversed xs ((s, d, items) # rest) = Array_splice (applyReversed xs rest) s d items"
  by (simp add: applyReversed_def)

lemma Array_splice_in_range:
  "s + d \<le> length xs \<Longrightarrow>
   Array_splice xs (int s) (int d) items = take s xs @ items @ drop (s + d) xs"
  by (simp add: Array_splice_def Let_def min_def max_def nat_add_distrib)

lemma ascending_untouched:
  "ascendingFrom q n splices \<Longrightarrow> i < q \<Longrightarrow> insertedAt splices i = [] \<and> \<not> isDeleted splices i"
proof (induction splices arbitrary: q)
  case Nil
  then show ?case by (simp add: insertedAt_def isDeleted_def)
next
  case (Cons sp rest)
  obtain s d items where sp: "sp = (s, d, items)" by (cases sp)
  from Cons.prems sp have a: "int q \<le> s" "0 \<le> d" "ascendingFrom (nat (s + d)) n rest"
    by simp_all
  have "i < nat (s + d)" using a Cons.prems(2) by linarith
  from Cons.IH[OF a(3) this] have "insertedAt rest i = []" "\<not> isDeleted rest i" by simp_all
  then show ?case using a Cons.prems(2) sp
    by (simp add: insertedAt_def isDeleted_def)
qed

lemma segment_append:
  "a \<le> b \<Longrightarrow> b \<le> c \<Longrightarrow> segment splices xs a c = segment splices xs a b @ segment splices xs b c"
proof -
  assume "a \<le> b" "b \<le> c"
  then have "[a..<c] = [a..<b] @ [b..<c]"
    by (metis le_Suc_ex upt_add_eq_append)
  then show ?thesis by (simp add: segment_def)
qed

lemma map_nth_upt_slice:
  assumes "b \<le> length xs"
  shows "map (nth xs) [a..<b] = drop a (take b xs)"
proof -
  have "drop a (take b xs) = drop a (take b (map (nth xs) [0..<length xs]))"
    by (simp add: map_nth)
  also have "\<dots> = map (nth xs) (drop a (take b [0..<length xs]))"
    by (simp only: drop_map take_map)
  also have "\<dots> = map (nth xs) [a..<b]"
    using assms by simp
  finally show ?thesis by simp
qed

lemma concat_singletons: "concat (map (\<lambda>i. [f i]) is) = map f is"
  by (induction "is") auto

lemma segment_kept:
  assumes "\<And>i. a \<le> i \<Longrightarrow> i < b \<Longrightarrow> insertedAt splices i = [] \<and> \<not> isDeleted splices i"
    and "b \<le> length xs"
  shows "segment splices xs a b = drop a (take b xs)"
proof -
  have "map (\<lambda>i. insertedAt splices i @ (if isDeleted splices i then [] else [xs ! i])) [a..<b]
        = map (\<lambda>i. [xs ! i]) [a..<b]"
    by (rule map_cong) (use assms(1) in auto)
  then have "segment splices xs a b = concat (map (\<lambda>i. [xs ! i]) [a..<b])"
    unfolding segment_def by (rule arg_cong)
  also have "\<dots> = map (nth xs) [a..<b]"
    by (rule concat_singletons)
  also have "\<dots> = drop a (take b xs)"
    using assms(2) by (rule map_nth_upt_slice)
  finally show ?thesis .
qed

lemma segment_removed:
  assumes "\<And>i. a \<le> i \<Longrightarrow> i < b \<Longrightarrow> insertedAt splices i = [] \<and> isDeleted splices i"
  shows "segment splices xs a b = []"
proof -
  have "map (\<lambda>i. insertedAt splices i @ (if isDeleted splices i then [] else [xs ! i])) [a..<b]
        = map (\<lambda>i. []) [a..<b]"
    by (rule map_cong) (use assms(1) in auto)
  then have "segment splices xs a b = concat (map (\<lambda>i. []) [a..<b])"
    unfolding segment_def by (rule arg_cong)
  then show ?thesis by simp
qed

lemma segment_same:
  assumes "\<And>i. a \<le> i \<Longrightarrow> i < b \<Longrightarrow>
             insertedAt splices i = insertedAt splices' i \<and> isDeleted splices i = isDeleted splices' i"
  shows "segment splices xs a b = segment splices' xs a b"
proof -
  have "map (\<lambda>i. insertedAt splices i @ (if isDeleted splices i then [] else [xs ! i])) [a..<b]
        = map (\<lambda>i. insertedAt splices' i @ (if isDeleted splices' i then [] else [xs ! i])) [a..<b]"
    by (rule map_cong) (use assms(1) in auto)
  then show ?thesis unfolding segment_def by (rule arg_cong)
qed

lemma segment_first:
  "a < b \<Longrightarrow> segment splices xs a b =
     insertedAt splices a @ (if isDeleted splices a then [] else [xs ! a]) @ segment splices xs (Suc a) b"
  by (simp add: segment_def upt_conv_Cons)

lemma segment_empty: "segment splices xs a a = []"
  by (simp add: segment_def)

lemma tailFrom_Cons:
  assumes "s + d \<le> a" "a \<le> length xs"
  shows "tailFrom ((int s, int d, items) # rest) xs a
         = (if s = a then items else []) @ tailFrom rest xs a"
proof (cases "a < length xs")
  case True
  have later: "segment ((int s, int d, items) # rest) xs (Suc a) (length xs)
               = segment rest xs (Suc a) (length xs)"
    by (rule segment_same) (use assms in \<open>auto simp: insertedAt_def isDeleted_def\<close>)
  have here: "insertedAt ((int s, int d, items) # rest) a
              = (if s = a then items else []) @ insertedAt rest a"
    "isDeleted ((int s, int d, items) # rest) a = isDeleted rest a"
    using assms by (auto simp: insertedAt_def isDeleted_def)
  have last: "insertedAt ((int s, int d, items) # rest) (length xs) = insertedAt rest (length xs)"
    using assms True by (auto simp: insertedAt_def)
  show ?thesis
    unfolding tailFrom_def segment_first[OF True] later here last by simp
next
  case False
  then have "a = length xs" using assms by simp
  then show ?thesis
    by (simp add: tailFrom_def segment_empty insertedAt_def)
qed

lemma applyReversed_ascending:
  "ascendingFrom pos (length xs) splices \<Longrightarrow> pos \<le> length xs \<Longrightarrow>
   applyReversed xs splices = take pos xs @ tailFrom splices xs pos"
proof (induction splices arbitrary: pos)
  case Nil
  have "segment [] xs pos (length xs) = drop pos (take (length xs) xs)"
    by (rule segment_kept) (simp_all add: insertedAt_def isDeleted_def)
  then show ?case
    by (simp add: applyReversed_Nil tailFrom_def insertedAt_def)
next
  case (Cons sp rest)
  obtain s0 d0 items where sp: "sp = (s0, d0, items)" by (cases sp)
  from Cons.prems(1) sp have a: "int pos \<le> s0" "0 \<le> d0" "s0 + d0 \<le> int (length xs)"
    "ascendingFrom (nat (s0 + d0)) (length xs) rest"
    by simp_all
  define s where "s = nat s0"
  define d where "d = nat d0"
  have sd: "s0 = int s" "d0 = int d" using a by (simp_all add: s_def d_def)
  have b: "pos \<le> s" "s + d \<le> length xs" "nat (s0 + d0) = s + d"
    using a sd by simp_all
  have rest: "applyReversed xs rest = take (s + d) xs @ tailFrom rest xs (s + d)"
    using Cons.IH[of "s + d"] a(4) b by simp
  have "applyReversed xs (sp # rest) = Array_splice (applyReversed xs rest) (int s) (int d) items"
    by (simp add: sp sd applyReversed_Cons)
  also have "\<dots> = take s (applyReversed xs rest) @ items @ drop (s + d) (applyReversed xs rest)"
    by (rule Array_splice_in_range) (use b rest in simp)
  also have "\<dots> = take s xs @ items @ tailFrom rest xs (s + d)"
    using b by (simp add: rest min_def)
  finally have lhs: "applyReversed xs (sp # rest) = take s xs @ items @ tailFrom rest xs (s + d)" .
  have untouched: "\<And>i. i < s + d \<Longrightarrow> insertedAt rest i = [] \<and> \<not> isDeleted rest i"
    using ascending_untouched[OF a(4)] b(3) by simp
  have before: "segment (sp # rest) xs pos s = drop pos (take s xs)"
    by (rule segment_kept) (use untouched b in \<open>auto simp: sp sd insertedAt_def isDeleted_def\<close>)
  have covered: "segment (sp # rest) xs s (s + d) = (if 0 < d then items else [])"
  proof (cases "0 < d")
    case True
    have "segment (sp # rest) xs (Suc s) (s + d) = []"
      by (rule segment_removed) (use untouched in \<open>auto simp: sp sd insertedAt_def isDeleted_def\<close>)
    moreover have "insertedAt (sp # rest) s = items" "isDeleted (sp # rest) s"
      using untouched[of s] True by (auto simp: sp sd insertedAt_def isDeleted_def)
    ultimately show ?thesis
      using True segment_first[of s "s + d" "sp # rest" xs] by simp
  next
    case False
    then show ?thesis by (simp add: segment_empty)
  qed
  have after: "tailFrom (sp # rest) xs (s + d) = (if d = 0 then items else []) @ tailFrom rest xs (s + d)"
    using tailFrom_Cons[of s d "s + d" xs items rest] b by (simp add: sp sd)
  have "tailFrom (sp # rest) xs pos
        = segment (sp # rest) xs pos s @ segment (sp # rest) xs s (s + d)
          @ tailFrom (sp # rest) xs (s + d)"
    unfolding tailFrom_def
    using segment_append[of pos s "length xs" "sp # rest" xs]
      segment_append[of s "s + d" "length xs" "sp # rest" xs] b by simp
  also have "\<dots> = drop pos (take s xs) @ items @ tailFrom rest xs (s + d)"
    unfolding before covered after by simp
  finally have rhs: "tailFrom (sp # rest) xs pos = drop pos (take s xs) @ items @ tailFrom rest xs (s + d)" .
  have "take pos xs @ drop pos (take s xs) = take s xs"
    using b by (metis append_take_drop_id min.absorb1 take_take)
  then show ?case unfolding lhs rhs by (metis append.assoc)
qed

lemma applyReversed_specAgainstOriginal:
  "ascendingFrom 0 (length xs) splices \<Longrightarrow> applyReversed xs splices = specAgainstOriginal xs splices"
  using applyReversed_ascending[of 0 xs splices]
  by (simp add: tailFrom_def specAgainstOriginal_def)

subsection \<open>The getters\<close>

lemma textBuffer_again:
  "textBuffer (snd (textBuffer c)) = (fst (textBuffer c), snd (textBuffer c))"
  by (simp add: textBuffer_def Let_def split: option.splits)

lemma textBuffer_bound: "p_textBuffer (snd (textBuffer c)) = Some (fst (textBuffer c))"
  by (simp add: textBuffer_def Let_def split: option.splits)

lemma textBuffer_frame:
  "p_language (snd (textBuffer c)) = p_language c"
  "p_outputs (snd (textBuffer c)) = p_outputs c"
  "p_metadata (snd (textBuffer c)) = p_metadata c"
  "transientOptions (snd (textBuffer c)) = transientOptions c"
  "p_hash (snd (textBuffer c)) = p_hash c"
  "fired (snd (textBuffer c)) = fired c"
  "cellKind (snd (textBuffer c)) = cellKind c"
  by (simp_all add: textBuffer_def Let_def split: option.splits)

lemma getFullModelRange_eq:
  "getFullModelRange c =
     (\<lparr> startLineNumber = 1, startColumn = 1, endLineNumber = getLineCount (fst (textBuffer c)),
        endColumn = getLineLength (fst (textBuffer c)) (getLineCount (fst (textBuffer c))) + 1 \<rparr>,
      snd (textBuffer c))"
  by (simp add: getFullModelRange_def Let_def split_beta)

lemma getValue_eq: "getValue c = (fullValue (fst (textBuffer c)), snd (textBuffer c))"
  by (simp add: getValue_def getFullModelRange_eq textBuffer_again fullValue_def Let_def split_beta)

lemma getTextLength_eq: "getTextLength c = (getLength (fst (textBuffer c)), snd (textBuffer c))"
  by (simp add: getTextLength_def Let_def split_beta)

lemma hashInput_eq:
  "hashInput hash c =
     (VArr [VNum (hash (VStr (p_language c))),
            VNum (hash (VStr (fullValue (fst (textBuffer c))))),
            VFun ''_getPersisentMetadata'',
            if transientOutputs (transientOptions c) then VArr []
            else VArr (map outputValue (p_outputs c))],
      snd (textBuffer c))"
  by (simp add: hashInput_def getValue_eq textBuffer_frame Let_def split_beta)

lemma splice_outputs:
  "p_outputs (snd (spliceNotebookCellOutputs r (st, c))) = applyReversed (p_outputs c) (st r)"
  by (simp add: applyReversed_def Let_def)

lemma splice_frame:
  "p_hash (snd (spliceNotebookCellOutputs r (st, c))) = p_hash c"
  "p_language (snd (spliceNotebookCellOutputs r (st, c))) = p_language c"
  "p_textBuffer (snd (spliceNotebookCellOutputs r (st, c))) = p_textBuffer c"
  "transientOptions (snd (spliceNotebookCellOutputs r (st, c))) = transientOptions c"
  "allocated (snd (spliceNotebookCellOutputs r (st, c))) = allocated c"
  "registered (snd (spliceNotebookCellOutputs r (st, c))) = registered c"
  "p_source (snd (spliceNotebookCellOutputs r (st, c))) = p_source c"
  by (simp_all add: Let_def)

subsection \<open>Output splicing\<close>

text \<open>
  C1 fails on the code. A call of \<^verbatim>\<open>spliceNotebookCellOutputs\<close> fires the outputs
  event once, but \<^verbatim>\<open>reverse()\<close> has reversed the caller's array by then, and the
  event is fired with that array: the payload is the reversed list, not the list as
  submitted. For the batch \<open>[(0,1,[A]), (2,0,[B])]\<close> the payload reads
  \<open>[(2,0,[B]), (0,1,[A])]\<close>.
\<close>

theorem splice_fires_reversed_list:
  "fired (snd (spliceNotebookCellOutputs splices (st, c)))
     = fired c @ [DidChangeOutputs splices (rev (st splices))]
   \<and> fired (snd (spliceNotebookCellOutputs 0 (emptyStore(0 := exampleSplices), exampleCell)))
       = [DidChangeOutputs 0 [(2, 0, [exampleOutput ''B'']), (0, 1, [exampleOutput ''A''])]]
   \<and> fired (snd (spliceNotebookCellOutputs 0 (emptyStore(0 := exampleSplices), exampleCell)))
       \<noteq> [DidChangeOutputs 0 exampleSplices]"
  by (simp add: Let_def exampleSplices_def exampleCell_def construct_def)

text \<open>
  C10. \<^verbatim>\<open>spliceNotebookCellOutputs\<close> changes its argument: after the call the caller's
  array holds the splices in reverse of the order of submission, every other array is
  as it was, and the event that was fired carries that same array.
\<close>

theorem splice_reverses_argument:
  "fst (spliceNotebookCellOutputs splices (st, c)) = st(splices := rev (st splices))
   \<and> last (fired (snd (spliceNotebookCellOutputs splices (st, c))))
       = DidChangeOutputs splices (fst (spliceNotebookCellOutputs splices (st, c)) splices)"
  by (simp add: Let_def)

text \<open>
  C3, as amended. For a batch submitted in ascending order (each splice starts where
  the one before it ends or later, inside the list, with no negative count), the
  output list after \<^verbatim>\<open>spliceNotebookCellOutputs\<close> is the one obtained by reading every
  start index against the list before the batch. In particular the splices
  \<open>[(0,1,[A]), (2,0,[B])]\<close> turn \<open>[x0,x1,x2]\<close> into \<open>[A,x1,B,x2]\<close>.
\<close>

theorem splice_ascending_batch:
  "(ascendingFrom 0 (length (p_outputs c)) (st splices) \<longrightarrow>
      p_outputs (snd (spliceNotebookCellOutputs splices (st, c)))
        = specAgainstOriginal (p_outputs c) (st splices))
   \<and> p_outputs (snd (spliceNotebookCellOutputs splices
         (st(splices := [(0, 1, [A]), (2, 0, [B])]), c\<lparr> p_outputs := [x0, x1, x2] \<rparr>)))
       = [A, x1, B, x2]"
proof (intro conjI impI)
  assume "ascendingFrom 0 (length (p_outputs c)) (st splices)"
  then show "p_outputs (snd (spliceNotebookCellOutputs splices (st, c)))
        = specAgainstOriginal (p_outputs c) (st splices)"
    by (simp only: splice_outputs applyReversed_specAgainstOriginal)
next
  show "p_outputs (snd (spliceNotebookCellOutputs splices
         (st(splices := [(0, 1, [A]), (2, 0, [B])]), c\<lparr> p_outputs := [x0, x1, x2] \<rparr>)))
       = [A, x1, B, x2]"
    by (simp add: Array_splice_def Let_def)
qed

theorem splice_ascending_batch_witness:
  "ascendingFrom 0 (length (p_outputs exampleCell)) ((emptyStore(0 := exampleSplices)) 0)
   \<and> p_outputs (snd (spliceNotebookCellOutputs 0 (emptyStore(0 := exampleSplices), exampleCell)))
       = [exampleOutput ''A'', exampleOutput ''x1'', exampleOutput ''B'', exampleOutput ''x2'']
   \<and> specAgainstOriginal (p_outputs exampleCell) exampleSplices
       = [exampleOutput ''A'', exampleOutput ''x1'', exampleOutput ''B'', exampleOutput ''x2'']"
  using splice_ascending_batch [of exampleCell "emptyStore(0 := exampleSplices)" 0]
  by (simp add: exampleCell_def construct_def exampleSplices_def specAgainstOriginal_def
      segment_def insertedAt_def isDeleted_def upt_conv_Cons)

text \<open>
  C3 as stated fails for a batch in descending order, whose indices are positions of
  the list before the batch all the same: \<open>[(2,0,[B]), (0,0,[A])]\<close> on \<open>[x0,x1,x2]\<close>
  gives \<open>[A,x0,B,x1,x2]\<close>, and \<open>[A,x0,x1,B,x2]\<close> when read against that list.
\<close>

theorem splice_any_order_counterexample:
  "p_outputs (snd (spliceNotebookCellOutputs 0 (emptyStore(0 := descendingSplices), exampleCell)))
     \<noteq> specAgainstOriginal (p_outputs exampleCell) descendingSplices"
  by (simp add: exampleCell_def construct_def descendingSplices_def specAgainstOriginal_def
      segment_def insertedAt_def isDeleted_def upt_conv_Cons Array_splice_def Let_def
      exampleOutput_def)

subsection \<open>The lazy buffer binding\<close>

lemma boundOnce_construct: "boundOnce (construct u h src lang kind outs md topts)"
  by (simp add: boundOnce_def construct_def)

lemma boundOnce_textBuffer: "boundOnce c \<Longrightarrow> boundOnce (snd (textBuffer c))"
  by (auto simp: boundOnce_def textBuffer_def Let_def createTextBuffer_def split: option.splits)

lemma boundOnce_listeners: "boundOnce c \<Longrightarrow> contentListeners (fst (textBuffer c)) = 1"
  by (auto simp: boundOnce_def textBuffer_def Let_def createTextBuffer_def split: option.splits)

lemma editContent_live:
  "boundOnce c \<Longrightarrow>
   editContent t c
     = contentListener
         ((snd (textBuffer c))\<lparr> p_textBuffer :=
             Some ((fst (textBuffer c))\<lparr> bufLines := splitLines t \<rparr>) \<rparr>)"
  by (simp add: editContent_def split_beta Let_def boundOnce_listeners)

lemma boundOnce_editContent: "boundOnce c \<Longrightarrow> boundOnce (editContent t c)"
proof -
  assume b: "boundOnce c"
  have "boundOnce (snd (textBuffer c))" using b by (rule boundOnce_textBuffer)
  then show ?thesis
    unfolding editContent_live[OF b]
    by (auto simp: boundOnce_def contentListener_def textBuffer_bound split: option.splits)
qed

lemma boundOnce_hash_update: "boundOnce (c\<lparr> p_hash := x \<rparr>) = boundOnce c"
  by (simp add: boundOnce_def split: option.splits)

lemma boundOnce_getHashValue: "boundOnce c \<Longrightarrow> boundOnce (snd (getHashValue hash c))"
  by (simp add: getHashValue_def hashInput_eq Let_def boundOnce_hash_update boundOnce_textBuffer
      split: option.splits)

lemma boundOnce_step:
  "isLive a \<Longrightarrow> boundOnce c \<Longrightarrow> boundOnce (snd (step hash a (st, c)))"
proof (cases a)
  case (SetLanguage l)
  assume "boundOnce c"
  then show ?thesis by (simp add: SetLanguage boundOnce_def set_language_def split: option.splits)
next
  case (SetMetadata m)
  assume "boundOnce c"
  then show ?thesis by (simp add: SetMetadata boundOnce_def set_metadata_def split: option.splits)
next
  case (SpliceOutputs r)
  assume "boundOnce c"
  then show ?thesis by (simp add: SpliceOutputs boundOnce_def Let_def split: option.splits)
next
  case Dispose
  assume "isLive a"
  then show ?thesis by (simp add: Dispose)
qed (simp_all add: boundOnce_editContent boundOnce_textBuffer boundOnce_getHashValue
      getValue_eq getTextLength_eq getFullModelRange_eq getEvaluatedMetadata_def Let_def)

lemma run_Nil: "run hash [] w = w"
  by (simp add: run_def)

lemma run_snoc: "run hash (as @ [a]) w = step hash a (run hash as w)"
  by (simp add: run_def)

lemma boundOnce_run:
  "list_all isLive as \<Longrightarrow> boundOnce (snd w) \<Longrightarrow> boundOnce (snd (run hash as w))"
proof (induction as rule: rev_induct)
  case Nil
  then show ?case by (simp add: run_Nil)
next
  case (snoc a as)
  then have "boundOnce (snd (run hash as w))" "isLive a" by simp_all
  then show ?case
    using boundOnce_step[of a "snd (run hash as w)" hash "fst (run hash as w)"]
    by (simp add: run_snoc)
qed

text \<open>
  C5. The first read of \<^verbatim>\<open>textBuffer\<close> builds the buffer from the raw source,
  puts one content listener on it and registers it; a second read returns the same
  buffer and leaves the cell as it is. In every state that a live cell reaches from its
  construction, at most one buffer has been built and it carries exactly one listener.
\<close>

theorem textBuffer_built_once:
  "(p_textBuffer c = None \<longrightarrow>
       fst (textBuffer c) = (createTextBuffer (allocated c) (p_source c))\<lparr> contentListeners := 1 \<rparr>
     \<and> registered (snd (textBuffer c))
         = registered c @ [BufferDisposable (allocated c), ContentListener (allocated c)]
     \<and> allocated (snd (textBuffer c)) = allocated c + 1)
   \<and> p_textBuffer (snd (textBuffer c)) = Some (fst (textBuffer c))
   \<and> textBuffer (snd (textBuffer c)) = (fst (textBuffer c), snd (textBuffer c))
   \<and> (list_all isLive as \<longrightarrow>
        boundOnce (snd (run hash as (st, construct u h src lang kind outs md topts))))"
proof (intro conjI impI)
  assume "list_all isLive as"
  then show "boundOnce (snd (run hash as (st, construct u h src lang kind outs md topts)))"
    by (rule boundOnce_run) (simp add: boundOnce_construct)
qed (simp_all add: textBuffer_again textBuffer_bound,
     simp_all add: textBuffer_def Let_def createTextBuffer_def)

theorem textBuffer_built_once_witness:
  "p_textBuffer exampleCell = None
   \<and> fst (textBuffer exampleCell)
       = \<lparr> bufferId = 0, bufLines = [''a''], bufEOL = eolLF, bufDisposed = False,
           contentListeners = 1 \<rparr>
   \<and> list_all isLive exampleCalls
   \<and> boundOnce (snd (run exampleHash exampleCalls (emptyStore, exampleCell)))
   \<and> allocated (snd (run exampleHash exampleCalls (emptyStore, exampleCell))) = 1"
proof -
  have unbound: "p_textBuffer exampleCell = None"
    by (simp add: exampleCell_def construct_def)
  have built: "(createTextBuffer (allocated exampleCell) (p_source exampleCell))
                 \<lparr> contentListeners := 1 \<rparr>
               = \<lparr> bufferId = 0, bufLines = [''a''], bufEOL = eolLF, bufDisposed = False,
                   contentListeners = 1 \<rparr>"
    by (simp add: exampleCell_def construct_def createTextBuffer_def)
  have live: "list_all isLive exampleCalls"
    by (simp add: exampleCalls_def)
  have once: "allocated (snd (run exampleHash exampleCalls (emptyStore, exampleCell))) = 1"
    by code_simp
  have "boundOnce (snd (run exampleHash exampleCalls
            (emptyStore, construct ''cell0'' 0 ''a'' ''py'' Code
               [exampleOutput ''x0'', exampleOutput ''x1'', exampleOutput ''x2'']
               None exampleOptions)))"
    using live textBuffer_built_once [of exampleCell exampleCalls] by blast
  then have "boundOnce (snd (run exampleHash exampleCalls (emptyStore, exampleCell)))"
    by (simp only: exampleCell_def)
  moreover have "fst (textBuffer exampleCell)
       = \<lparr> bufferId = 0, bufLines = [''a''], bufEOL = eolLF, bufDisposed = False,
           contentListeners = 1 \<rparr>"
    using unbound built textBuffer_built_once [of exampleCell exampleCalls] by simp
  ultimately show ?thesis
    using unbound live once by simp
qed

subsection \<open>The hash cache\<close>

lemma getHashValue_fresh:
  "p_hash c = None \<Longrightarrow> fst (getHashValue hash c) = hash (fst (hashInput hash c))"
  by (simp add: getHashValue_def Let_def split_beta)

lemma set_metadata_frame:
  "p_hash (set_metadata m c) = None"
  "p_language (set_metadata m c) = p_language c"
  "p_outputs (set_metadata m c) = p_outputs c"
  "transientOptions (set_metadata m c) = transientOptions c"
  "textBuffer (set_metadata m c) = (fst (textBuffer c), set_metadata m (snd (textBuffer c)))"
  by (simp_all add: set_metadata_def textBuffer_def Let_def split: option.splits)

lemma set_language_frame:
  "p_hash (set_language l c) = None"
  "p_language (set_language l c) = l"
  "p_outputs (set_language l c) = p_outputs c"
  "transientOptions (set_language l c) = transientOptions c"
  "textBuffer (set_language l c) = (fst (textBuffer c), set_language l (snd (textBuffer c)))"
  by (simp_all add: set_language_def textBuffer_def Let_def split: option.splits)

lemma hashed_same:
  assumes "p_language c' = p_language c" "fst (textBuffer c') = fst (textBuffer c)"
    "transientOptions c' = transientOptions c"
    "transientOutputs (transientOptions c) \<or> p_outputs c' = p_outputs c"
  shows "fst (hashInput hash c') = fst (hashInput hash c)"
  using assms by (auto simp: hashInput_eq)

lemma cacheValid_same:
  assumes "cacheValid hash c" "p_hash c' = p_hash c"
    "fst (hashInput hash c') = fst (hashInput hash c)"
  shows "cacheValid hash c'"
  using assms by (simp add: cacheValid_def split: option.splits)

lemma cacheValid_empty: "p_hash c = None \<Longrightarrow> cacheValid hash c"
  by (simp add: cacheValid_def)

lemma textBuffer_hash_update: "fst (textBuffer (c\<lparr> p_hash := x \<rparr>)) = fst (textBuffer c)"
  by (simp add: textBuffer_def Let_def split: option.splits)

lemma textBuffer_twice: "fst (textBuffer (snd (textBuffer c))) = fst (textBuffer c)"
  by (simp only: textBuffer_again fst_conv)

lemma hashed_textBuffer: "fst (hashInput hash (snd (textBuffer c))) = fst (hashInput hash c)"
  by (rule hashed_same) (simp_all only: textBuffer_frame textBuffer_twice simp_thms)

lemma cacheValid_textBuffer: "cacheValid hash c \<Longrightarrow> cacheValid hash (snd (textBuffer c))"
  by (rule cacheValid_same[where c = c]) (simp_all only: textBuffer_frame hashed_textBuffer)

lemma getHashValue_empty:
  "p_hash c = None \<Longrightarrow>
   snd (getHashValue hash c) = (snd (textBuffer c))\<lparr> p_hash := Some (hash (fst (hashInput hash c))) \<rparr>"
  by (simp add: getHashValue_def Let_def split_beta hashInput_eq)

lemma getHashValue_filled: "p_hash c = Some v \<Longrightarrow> getHashValue hash c = (v, c)"
  by (simp add: getHashValue_def)

lemma hashed_hash_update: "fst (hashInput hash (c\<lparr> p_hash := x \<rparr>)) = fst (hashInput hash c)"
  by (rule hashed_same) (simp_all add: textBuffer_hash_update)

lemma cacheValid_getHashValue: "cacheValid hash c \<Longrightarrow> cacheValid hash (snd (getHashValue hash c))"
proof (cases "p_hash c")
  case None
  show ?thesis
    unfolding getHashValue_empty[OF None]
    by (simp add: cacheValid_def hashed_hash_update hashed_textBuffer)
next
  case (Some v)
  assume "cacheValid hash c"
  then show ?thesis by (simp only: getHashValue_filled[OF Some] snd_conv)
qed

lemma p_hash_editContent: "boundOnce c \<Longrightarrow> p_hash (editContent t c) = None"
  by (simp add: editContent_live contentListener_def)

lemma splice_textBuffer:
  "fst (textBuffer (snd (spliceNotebookCellOutputs r (st, c)))) = fst (textBuffer c)"
  by (simp add: textBuffer_def Let_def split: option.splits)

lemma cacheValid_splice:
  assumes "transientOutputs (transientOptions c)" "cacheValid hash c"
  shows "cacheValid hash (snd (spliceNotebookCellOutputs r (st, c)))"
proof (rule cacheValid_same[OF assms(2)])
  show "p_hash (snd (spliceNotebookCellOutputs r (st, c))) = p_hash c"
    by (simp only: splice_frame)
  show "fst (hashInput hash (snd (spliceNotebookCellOutputs r (st, c))))
             = fst (hashInput hash c)"
    using assms(1) by (intro hashed_same) (simp_all only: splice_frame splice_textBuffer simp_thms)
qed

lemma keepsCache_isLive: "keepsCache c a \<Longrightarrow> isLive a"
  by (cases a) simp_all

lemma cacheValid_splice_empty:
  "p_hash c = None \<Longrightarrow> cacheValid hash (snd (spliceNotebookCellOutputs r (st, c)))"
  by (rule cacheValid_empty) (simp only: splice_frame)

lemma cacheValid_step:
  assumes "keepsCache c a" "boundOnce c" "cacheValid hash c"
  shows "cacheValid hash (snd (step hash a (st, c)))"
proof (cases a)
  case (SetLanguage l)
  show ?thesis by (simp add: SetLanguage cacheValid_empty set_language_frame)
next
  case (SetMetadata m)
  show ?thesis by (simp add: SetMetadata cacheValid_empty set_metadata_frame)
next
  case (EditContent t)
  show ?thesis using assms(2) by (simp add: EditContent cacheValid_empty p_hash_editContent)
next
  case GetTextBuffer
  show ?thesis using assms(3) by (simp add: GetTextBuffer cacheValid_textBuffer)
next
  case GetValue
  show ?thesis using assms(3) by (simp add: GetValue getValue_eq cacheValid_textBuffer)
next
  case GetTextLength
  show ?thesis using assms(3) by (simp add: GetTextLength getTextLength_eq cacheValid_textBuffer)
next
  case GetFullModelRange
  show ?thesis
    using assms(3) by (simp add: GetFullModelRange getFullModelRange_eq cacheValid_textBuffer)
next
  case GetHashValue
  show ?thesis using assms(3) by (simp add: GetHashValue cacheValid_getHashValue)
next
  case (GetEvaluatedMetadata d)
  show ?thesis
    using assms(3) by (simp add: GetEvaluatedMetadata getEvaluatedMetadata_def Let_def)
next
  case (SpliceOutputs r)
  from assms(1) have "transientOutputs (transientOptions c) \<or> p_hash c = None"
    by (simp only: SpliceOutputs keepsCache.simps)
  then have "cacheValid hash (snd (spliceNotebookCellOutputs r (st, c)))"
    using assms(3) cacheValid_splice[of c hash r st] cacheValid_splice_empty[of c hash r st]
    by blast
  then show ?thesis by (simp only: SpliceOutputs step.simps)
next
  case Dispose
  show ?thesis using assms(1) by (simp add: Dispose)
qed

lemma run_Cons: "run hash (a # as) w = run hash as (step hash a w)"
  by (simp add: run_def)

lemma cache_run:
  "cacheSafe hash as w \<Longrightarrow> boundOnce (snd w) \<Longrightarrow> cacheValid hash (snd w) \<Longrightarrow>
   boundOnce (snd (run hash as w)) \<and> cacheValid hash (snd (run hash as w))"
proof (induction as arbitrary: w)
  case Nil
  then show ?case by (simp add: run_Nil)
next
  case (Cons a as)
  obtain st c where w: "w = (st, c)" by (cases w)
  from Cons.prems have a: "keepsCache c a" and rest: "cacheSafe hash as (step hash a (st, c))"
    and b: "boundOnce c" and v: "cacheValid hash c"
    by (simp_all add: w)
  have "boundOnce (snd (step hash a (st, c)))"
    using a b by (intro boundOnce_step keepsCache_isLive)
  moreover have "cacheValid hash (snd (step hash a (st, c)))"
    using a b v by (rule cacheValid_step)
  ultimately show ?case
    using Cons.IH[OF rest] by (simp only: run_Cons w)
qed

lemma cacheValid_construct: "cacheValid hash (construct u h src lang kind outs md topts)"
  by (rule cacheValid_empty) (simp add: construct_def)

text \<open>
  C9. \<^verbatim>\<open>getHashValue\<close> leaves its result in the cache, and with a filled cache it
  returns what the cache holds and changes nothing. So a second call right after a
  first returns the memoized result of the first. With an empty cache the first call
  computes the hash. This holds in every state, so in every state that a sequence of
  language, metadata and content changes leads to.
\<close>

theorem hash_memoized:
  "p_hash (snd (getHashValue hash c)) = Some (fst (getHashValue hash c))
   \<and> (p_hash c = Some v \<longrightarrow> getHashValue hash c = (v, c))
   \<and> (p_hash c = None \<longrightarrow> fst (getHashValue hash c) = hash (fst (hashInput hash c)))
   \<and> getHashValue hash (snd (getHashValue hash c))
       = (fst (getHashValue hash c), snd (getHashValue hash c))"
  by (simp add: getHashValue_def Let_def split_beta split: option.splits)

theorem hash_memoized_witness:
  "p_hash exampleCell = None
   \<and> fst (getHashValue exampleHash exampleCell) = 1007585488
   \<and> p_hash (snd (getHashValue exampleHash exampleCell)) = Some 1007585488
   \<and> getHashValue exampleHash (snd (getHashValue exampleHash exampleCell))
       = (1007585488, snd (getHashValue exampleHash exampleCell))"
proof -
  have empty: "p_hash exampleCell = None"
    by (simp add: exampleCell_def construct_def)
  have first: "fst (getHashValue exampleHash exampleCell) = 1007585488"
    by code_simp
  have filled: "p_hash (snd (getHashValue exampleHash exampleCell)) = Some 1007585488"
    using first hash_memoized [of exampleHash exampleCell] by simp
  have "getHashValue exampleHash (snd (getHashValue exampleHash exampleCell))
       = (1007585488, snd (getHashValue exampleHash exampleCell))"
    using filled
      hash_memoized [of exampleHash "snd (getHashValue exampleHash exampleCell)" 1007585488]
    by blast
  then show ?thesis using empty first filled by simp
qed

text \<open>
  C2 fails on the code. The array handed to \<^verbatim>\<open>hash\<close> holds the method
  \<^verbatim>\<open>_getPersisentMetadata\<close>, not its result, so with an empty cache the computed hash
  is the same whatever the metadata: for every \<^verbatim>\<open>hash\<close>, and for the cells with
  metadata \<^verbatim>\<open>{custom: 1}\<close> and \<^verbatim>\<open>{custom: 2}\<close>, whose filtered metadata differ.
\<close>

theorem hash_ignores_metadata:
  "fst (getHashValue hash (set_metadata m1 c)) = fst (getHashValue hash (set_metadata m2 c))
   \<and> getPersisentMetadata (set_metadata [(''custom'', VNum 1)] exampleCell)
       \<noteq> getPersisentMetadata (set_metadata [(''custom'', VNum 2)] exampleCell)
   \<and> fst (getHashValue exampleHash (set_metadata [(''custom'', VNum 1)] exampleCell))
       = fst (getHashValue exampleHash (set_metadata [(''custom'', VNum 2)] exampleCell))"
proof (intro conjI)
  show "fst (getHashValue hash (set_metadata m1 c)) = fst (getHashValue hash (set_metadata m2 c))"
    by (simp add: getHashValue_fresh set_metadata_frame hashInput_eq)
  show "fst (getHashValue exampleHash (set_metadata [(''custom'', VNum 1)] exampleCell))
       = fst (getHashValue exampleHash (set_metadata [(''custom'', VNum 2)] exampleCell))"
    by (simp add: getHashValue_fresh set_metadata_frame hashInput_eq)
  show "getPersisentMetadata (set_metadata [(''custom'', VNum 1)] exampleCell)
       \<noteq> getPersisentMetadata (set_metadata [(''custom'', VNum 2)] exampleCell)"
    by (simp add: getPersisentMetadata_def set_metadata_def exampleCell_def construct_def
        exampleOptions_def)
qed

text \<open>
  C4, as amended. In every state that a live cell reaches from its construction by
  language and metadata changes, content edits, reads, \<^verbatim>\<open>getHashValue\<close> calls and
  output splices, where a splice of outputs that are not transient comes only while the
  cache is empty, a filled cache holds the value that \<^verbatim>\<open>getHashValue\<close> would compute
  in that state. Each of the three changes empties the cache, so the call of
  \<^verbatim>\<open>getHashValue\<close> after it computes the hash anew. An output splice leaves the cache
  as it is.
\<close>

theorem hash_cache_invariant:
  assumes "cacheSafe hash as (st, construct u h src lang kind outs md topts)"
    and "c = snd (run hash as (st, construct u h src lang kind outs md topts))"
  shows "cacheValid hash c
     \<and> p_hash (set_language l c) = None
     \<and> p_hash (set_metadata m c) = None
     \<and> p_hash (editContent t c) = None
     \<and> fst (getHashValue hash (set_language l c)) = hash (fst (hashInput hash (set_language l c)))
     \<and> fst (getHashValue hash (set_metadata m c)) = hash (fst (hashInput hash (set_metadata m c)))
     \<and> fst (getHashValue hash (editContent t c)) = hash (fst (hashInput hash (editContent t c)))
     \<and> p_hash (snd (spliceNotebookCellOutputs r (st', c))) = p_hash c"
proof -
  have start: "boundOnce (snd (st, construct u h src lang kind outs md topts))"
    "cacheValid hash (snd (st, construct u h src lang kind outs md topts))"
    by (simp_all add: boundOnce_construct cacheValid_construct)
  have "boundOnce c \<and> cacheValid hash c"
    unfolding assms(2) using assms(1) start by (rule cache_run)
  then have b: "boundOnce c" and v: "cacheValid hash c" by simp_all
  have e: "p_hash (editContent t c) = None" using b by (rule p_hash_editContent)
  show ?thesis
    using v e by (simp add: set_language_frame set_metadata_frame getHashValue_fresh splice_frame)
qed

theorem hash_cache_invariant_witness:
  "cacheSafe exampleHash splicedCalls (emptyStore(0 := exampleSplices), exampleCell)
   \<and> \<not> transientOutputs (transientOptions exampleCell)
   \<and> p_hash (snd (run exampleHash splicedCalls (emptyStore(0 := exampleSplices), exampleCell)))
       = Some 952457507
   \<and> cacheValid exampleHash
        (snd (run exampleHash splicedCalls (emptyStore(0 := exampleSplices), exampleCell)))
   \<and> p_hash (set_language ''ts''
        (snd (run exampleHash splicedCalls (emptyStore(0 := exampleSplices), exampleCell))))
       = None"
proof -
  have safe: "cacheSafe exampleHash splicedCalls
                (emptyStore(0 := exampleSplices),
                 construct ''cell0'' 0 ''a'' ''py'' Code
                   [exampleOutput ''x0'', exampleOutput ''x1'', exampleOutput ''x2'']
                   None exampleOptions)"
    by code_simp
  have kept: "\<not> transientOutputs (transientOptions exampleCell)"
    by code_simp
  have filled: "p_hash (snd (run exampleHash splicedCalls
                  (emptyStore(0 := exampleSplices), exampleCell))) = Some 952457507"
    by code_simp
  have start: "snd (run exampleHash splicedCalls (emptyStore(0 := exampleSplices), exampleCell))
        = snd (run exampleHash splicedCalls
            (emptyStore(0 := exampleSplices),
             construct ''cell0'' 0 ''a'' ''py'' Code
               [exampleOutput ''x0'', exampleOutput ''x1'', exampleOutput ''x2'']
               None exampleOptions))"
    by (simp only: exampleCell_def)
  have "cacheSafe exampleHash splicedCalls (emptyStore(0 := exampleSplices), exampleCell)"
    using safe by (simp only: exampleCell_def)
  then show ?thesis
    using kept filled hash_cache_invariant [OF safe start, of "''ts''"]
    by blast
qed

text \<open>
  C4 as stated fails after \<^verbatim>\<open>getHashValue\<close> and an output splice on a cell whose
  outputs are not transient: the cache is filled, and holds neither the hash of the
  inputs that the spec lists nor the hash that \<^verbatim>\<open>getHashValue\<close> would compute now.
  It fails after \<^verbatim>\<open>getHashValue\<close> and \<^verbatim>\<open>dispose\<close> as well, where the text has
  become empty under a filled cache.
\<close>

theorem hash_cache_stale_counterexample:
  "\<not> specCacheValid exampleHash
        (snd (run exampleHash staleCalls (emptyStore(0 := exampleSplices), exampleCell)))
   \<and> \<not> cacheValid exampleHash
        (snd (run exampleHash staleCalls (emptyStore(0 := exampleSplices), exampleCell)))
   \<and> \<not> cacheValid exampleHash (snd (run exampleHash disposedCalls (emptyStore, exampleCell)))"
  by code_simp

subsection \<open>Metadata evaluation\<close>

lemma map_of_setProp: "map_of (setProp k v obj) = (map_of obj)(k \<mapsto> v)"
  by (induction obj) (auto simp: fun_eq_iff)

lemma getProp_setProp: "getProp (setProp k v obj) k' = (if k' = k then v else getProp obj k')"
  by (simp add: getProp_def map_of_setProp)

lemma getProp_absent: "map_of obj key = None \<Longrightarrow> getProp obj key = VUndefined"
  by (simp add: getProp_def)

lemma getProp_present: "map_of obj key = Some v \<Longrightarrow> getProp obj key = v"
  by (simp add: getProp_def)

lemma evaluated_getProp:
  "getProp (fst (getEvaluatedMetadata documentMetadata c)) key
     = (if key = ''hasExecutionOrder''
        then coalesce (getProp (p_metadata c) ''hasExecutionOrder'')
               (VBool (cellHasExecutionOrder documentMetadata))
        else if key = ''editable''
        then coalesce (getProp (p_metadata c) ''editable'') (VBool (cellEditable documentMetadata))
        else getProp (p_metadata c) key)"
  by (simp add: getEvaluatedMetadata_def Let_def getProp_setProp)

text \<open>
  C6. In the result of \<^verbatim>\<open>getEvaluatedMetadata\<close> the flags \<^verbatim>\<open>editable\<close> and
  \<^verbatim>\<open>hasExecutionOrder\<close> are the cell's own values when these are neither
  \<^verbatim>\<open>undefined\<close> nor \<^verbatim>\<open>null\<close>, and the document's defaults otherwise: with no
  \<^verbatim>\<open>editable\<close> in the cell and \<^verbatim>\<open>cellEditable = false\<close> the result has
  \<^verbatim>\<open>false\<close>, with \<^verbatim>\<open>editable = true\<close> in the cell it has \<^verbatim>\<open>true\<close>. Every
  other key reads as in the cell's metadata, and the cell is unchanged.
\<close>

theorem evaluated_metadata_flags:
  "getProp (fst (getEvaluatedMetadata documentMetadata c)) ''editable''
     = (if nullish (getProp (p_metadata c) ''editable'')
        then VBool (cellEditable documentMetadata) else getProp (p_metadata c) ''editable'')
   \<and> getProp (fst (getEvaluatedMetadata documentMetadata c)) ''hasExecutionOrder''
     = (if nullish (getProp (p_metadata c) ''hasExecutionOrder'')
        then VBool (cellHasExecutionOrder documentMetadata)
        else getProp (p_metadata c) ''hasExecutionOrder'')
   \<and> (map_of (p_metadata c) ''editable'' = None \<and> \<not> cellEditable documentMetadata \<longrightarrow>
        getProp (fst (getEvaluatedMetadata documentMetadata c)) ''editable'' = VBool False)
   \<and> (map_of (p_metadata c) ''editable'' = Some (VBool True) \<longrightarrow>
        getProp (fst (getEvaluatedMetadata documentMetadata c)) ''editable'' = VBool True)
   \<and> (\<forall>key. key \<noteq> ''editable'' \<and> key \<noteq> ''hasExecutionOrder'' \<longrightarrow>
        getProp (fst (getEvaluatedMetadata documentMetadata c)) key = getProp (p_metadata c) key)
   \<and> snd (getEvaluatedMetadata documentMetadata c) = c"
proof (intro conjI allI impI)
  show "snd (getEvaluatedMetadata documentMetadata c) = c"
    by (simp add: getEvaluatedMetadata_def Let_def)
qed (auto simp: evaluated_getProp coalesce_def getProp_absent getProp_present nullish_def)

theorem evaluated_metadata_flags_witness:
  "map_of (p_metadata exampleCell) ''editable'' = None \<and> \<not> cellEditable exampleDocument
   \<and> getProp (fst (getEvaluatedMetadata exampleDocument exampleCell)) ''editable'' = VBool False
   \<and> map_of (p_metadata (set_metadata [(''editable'', VBool True)] exampleCell)) ''editable''
       = Some (VBool True)
   \<and> getProp (fst (getEvaluatedMetadata exampleDocument
         (set_metadata [(''editable'', VBool True)] exampleCell))) ''editable'' = VBool True"
proof -
  have unset: "map_of (p_metadata exampleCell) ''editable'' = None"
    by (simp add: exampleCell_def construct_def)
  have off: "\<not> cellEditable exampleDocument"
    by (simp add: exampleDocument_def)
  have on: "map_of (p_metadata (set_metadata [(''editable'', VBool True)] exampleCell)) ''editable''
       = Some (VBool True)"
    by (simp add: set_metadata_def)
  show ?thesis
    using unset off on evaluated_metadata_flags [of exampleDocument exampleCell]
      evaluated_metadata_flags
        [of exampleDocument "set_metadata [(''editable'', VBool True)] exampleCell"]
    by blast
qed

subsection \<open>Disposal and cloning\<close>

text \<open>
  C8. \<^verbatim>\<open>dispose\<close> returns. After it the buffer that the cell reads is the empty
  disposed one, whatever buffer it had before: \<^verbatim>\<open>getTextLength\<close> is 0 and the value
  is empty. A second \<^verbatim>\<open>dispose\<close> returns too and leaves the same.
\<close>

theorem dispose_twice:
  "(case dispose c of
      Inl e \<Rightarrow> False
    | Inr c1 \<Rightarrow>
        fst (textBuffer c1) = (emptyTextBuffer (allocated c))\<lparr> bufDisposed := True \<rparr>
        \<and> fst (getTextLength c1) = 0
        \<and> fst (getValue c1) = []
        \<and> (case dispose c1 of
             Inl e \<Rightarrow> False
           | Inr c2 \<Rightarrow>
               fst (textBuffer c2) = (emptyTextBuffer (allocated c1))\<lparr> bufDisposed := True \<rparr>
               \<and> fst (getTextLength c2) = 0))"
  by (simp add: dispose_def super_dispose_def Let_def getTextLength_eq getValue_eq textBuffer_def
      emptyTextBuffer_def getLength_def fullValue_def getValueInRange_def getLineCount_def
      getLineLength_def getLineContent_def getEOL_def)








end
